theory Spec2Isabelle
  imports Complex_Main "HOL-Library.Multiset"
begin

section \<open>The prime finder of \<^verbatim>\<open>prime_finder.py\<close>\<close>

text \<open>
  Python integers are unbounded, so they are \<^typ>\<open>int\<close>; Python's \<^verbatim>\<open>//\<close> and \<^verbatim>\<open>%\<close> are floor
  division and its remainder, which is what \<open>div\<close> and \<open>mod\<close> are on \<^typ>\<open>int\<close>. The
  parameter \<^verbatim>\<open>end\<close> of the source is written \<open>stop\<close> here, \<^verbatim>\<open>end\<close> being a keyword.
  Every exception the modelled code can raise is a value of \<open>py_error\<close>.
\<close>

datatype py_error = ZeroDivisionError | ValueError | OverflowError | PickleError

subsection \<open>The primality oracle\<close>

text \<open>
  The loop \<^verbatim>\<open>while i * i <= n\<close> of \<^verbatim>\<open>is_prime\<close>, with \<open>i\<close> as its state. The source
  enters it at \<open>i = 5\<close> only, so both divisors \<open>i\<close> and \<open>i + 2\<close> are positive.
\<close>

function is_prime_loop :: "int \<Rightarrow> int \<Rightarrow> bool" where
  "is_prime_loop n i =
     (if i * i \<le> n
      then (if n mod i = 0 \<or> n mod (i + 2) = 0 then False
            else is_prime_loop n (i + 6))
      else True)"
  by pat_completeness auto
termination
proof (relation "measure (\<lambda>(n, i). nat (n + 1 - i))")
  show "wf (measure (\<lambda>(n, i). nat (n + 1 - i)))" by simp
next
  fix n i :: int
  assume "i * i \<le> n"
  moreover have "i \<le> i * i"
    by (cases "i \<le> 0") (auto intro: order_trans simp: mult_le_cancel_left1)
  ultimately show "((n, i + 6), (n, i)) \<in> measure (\<lambda>(n, i). nat (n + 1 - i))" by simp
qed

declare is_prime_loop.simps [simp del]

definition is_prime :: "int \<Rightarrow> bool" where
  "is_prime n =
     (if n \<le> 1 then False
      else if n \<le> 3 then True
      else if n mod 2 = 0 \<or> n mod 3 = 0 then False
      else is_prime_loop n 5)"

text \<open>
  The same loop and function once more, with not returning as the value \<open>None\<close>: this
  definition needs no termination proof, so that the loop returns is a theorem about it.
\<close>

partial_function (option) is_prime_while :: "int \<Rightarrow> int \<Rightarrow> bool option" where
  "is_prime_while n i =
     (if i * i \<le> n
      then (if n mod i = 0 \<or> n mod (i + 2) = 0 then Some False
            else is_prime_while n (i + 6))
      else Some True)"

definition is_prime_run :: "int \<Rightarrow> bool option" where
  "is_prime_run n =
     (if n \<le> 1 then Some False
      else if n \<le> 3 then Some True
      else if n mod 2 = 0 \<or> n mod 3 = 0 then Some False
      else is_prime_while n 5)"

text \<open>
  What the specification compares the oracle with: primality of an integer, and the
  candidate divisors \<open>6k - 1\<close> and \<open>6k + 1\<close> (5, 7, 11, 13, ...) up to the square root.
\<close>

definition prime_int :: "int \<Rightarrow> bool" where
  "prime_int n \<longleftrightarrow> 1 < n \<and> (\<forall>d. 0 < d \<and> d dvd n \<longrightarrow> d = 1 \<or> d = n)"

definition wheel_candidate :: "int \<Rightarrow> bool" where
  "wheel_candidate c \<longleftrightarrow> 5 \<le> c \<and> (c mod 6 = 5 \<or> c mod 6 = 1)"

definition wheel_clear :: "int \<Rightarrow> bool" where
  "wheel_clear n \<longleftrightarrow> (\<forall>c. wheel_candidate c \<and> c * c \<le> n \<longrightarrow> \<not> c dvd n)"

subsection \<open>Primes of a range\<close>

text \<open>
  \<^verbatim>\<open>[i for i in range(start, end + 1) if is_prime(i)]\<close>: \<open>[start..stop]\<close> lists the integers
  from \<open>start\<close> to \<open>stop\<close> inclusive and is empty when \<open>stop < start\<close>, as the range is.
\<close>

definition find_primes_in_range :: "int \<Rightarrow> int \<Rightarrow> int list" where
  "find_primes_in_range start stop = filter is_prime [start..stop]"

text \<open>
  Every strategy returns the pair of its primes and a duration, the difference of two
  readings \<open>t0\<close> and \<open>t1\<close> of \<^verbatim>\<open>time.time()\<close>. The readings are inputs of the model, and
  Python's floats are taken as reals.
\<close>

definition find_primes_sequential :: "real \<Rightarrow> real \<Rightarrow> int \<Rightarrow> int \<Rightarrow> int list \<times> real" where
  "find_primes_sequential t0 t1 start stop =
     (let primes = find_primes_in_range start stop in (primes, t1 - t0))"

subsection \<open>Partitioning\<close>

text \<open>
  Both fan-out strategies start with the same lines. The division comes first and
  raises for a divisor of zero; the clamp to 1 follows it.
\<close>

definition chunk_size_of :: "int \<Rightarrow> int \<Rightarrow> int \<Rightarrow> py_error + int" where
  "chunk_size_of start stop num_workers =
     (if num_workers = 0 then Inl ZeroDivisionError
      else (let chunk_size = (stop - start + 1) div num_workers
            in Inr (if chunk_size < 1 then 1 else chunk_size)))"

text \<open>
  \<^verbatim>\<open>for i in range(start, end + 1, chunk_size)\<close> with the pair \<open>(i, min(i + chunk_size - 1, end))\<close>
  made in its body. The step is at least 1 wherever the source reaches the loop; the
  guard \<open>0 < chunk_size\<close> only makes the recursion total.
\<close>

function chunk_ranges :: "int \<Rightarrow> int \<Rightarrow> int \<Rightarrow> (int \<times> int) list" where
  "chunk_ranges i stop chunk_size =
     (if i \<le> stop \<and> 0 < chunk_size
      then (i, min (i + chunk_size - 1) stop) # chunk_ranges (i + chunk_size) stop chunk_size
      else [])"
  by pat_completeness auto
termination
  by (relation "measure (\<lambda>(i, stop, chunk_size). nat (stop + 1 - i))") auto

declare chunk_ranges.simps [simp del]

definition chunks_for :: "int \<Rightarrow> int \<Rightarrow> int \<Rightarrow> py_error + (int \<times> int) list" where
  "chunks_for start stop num_workers =
     (case chunk_size_of start stop num_workers of
        Inl e \<Rightarrow> Inl e
      | Inr chunk_size \<Rightarrow> Inr (chunk_ranges start stop chunk_size))"

fun contiguous :: "(int \<times> int) list \<Rightarrow> bool" where
  "contiguous [] = True"
| "contiguous [c] = True"
| "contiguous (c # d # cs) = (fst d = snd c + 1 \<and> contiguous (d # cs))"

subsection \<open>Thread fan-out\<close>

text \<open>
  A worker computes the primes of its chunk and extends the shared list while it holds
  the lock, so the list grows by one whole chunk result at a time, in the order in which
  the workers take the lock. That order is the scheduler's choice: it is the parameter
  \<open>sched\<close>, the indices of the submitted tasks in lock order, and a schedule is valid when
  it names every task once. \<^verbatim>\<open>ThreadPoolExecutor\<close> raises \<^verbatim>\<open>ValueError\<close> for
  \<^verbatim>\<open>max_workers <= 0\<close>.
\<close>

definition worker :: "int list \<Rightarrow> int \<times> int \<Rightarrow> int list" where
  "worker all_primes r = all_primes @ find_primes_in_range (fst r) (snd r)"

definition valid_schedule :: "nat list \<Rightarrow> nat \<Rightarrow> bool" where
  "valid_schedule sched n \<longleftrightarrow> sort sched = [0..<n]"

definition find_primes_threading ::
    "real \<Rightarrow> real \<Rightarrow> nat list \<Rightarrow> int \<Rightarrow> int \<Rightarrow> int \<Rightarrow> py_error + (int list \<times> real)" where
  "find_primes_threading t0 t1 sched start stop num_threads =
     (case chunk_size_of start stop num_threads of
        Inl e \<Rightarrow> Inl e
      | Inr chunk_size \<Rightarrow>
          if num_threads \<le> 0 then Inl ValueError
          else (let tasks = chunk_ranges start stop chunk_size;
                    all_primes = foldl worker [] (map (\<lambda>k. tasks ! k) sched)
                in Inr (sort all_primes, t1 - t0)))"

subsection \<open>Process fan-out\<close>

text \<open>
  \<^verbatim>\<open>ProcessPoolExecutor.map\<close> submits one call per item and sends each call to a worker
  process through a queue, which pickles the callable. The callable of the source is a
  lambda local to \<^verbatim>\<open>find_primes_multiprocessing\<close>, and pickle serialises a function by
  its importable name, which a lambda has not: the call never reaches a worker, and
  reading the first result raises the pickling error. With no item nothing is submitted
  and the results are empty. The error \<open>PickleError\<close> stands for what pickle raises there
  (\<^verbatim>\<open>PicklingError\<close> or \<^verbatim>\<open>AttributeError\<close>, by version).

  The constructor of \<^verbatim>\<open>ProcessPoolExecutor\<close> checks \<^verbatim>\<open>max_workers\<close> before anything is mapped,
  and what it accepts depends on \<^verbatim>\<open>sys.platform\<close>, an input of the model. It raises
  \<^verbatim>\<open>ValueError\<close> for \<^verbatim>\<open>max_workers <= 0\<close>, and on win32 for more than 61 workers. On Linux
  its call queue has \<^verbatim>\<open>max_workers + 1\<close> slots, counted by a semaphore whose value is a C
  \<^verbatim>\<open>int\<close>, so from \<open>2^31 - 1\<close> workers on it raises \<^verbatim>\<open>OverflowError\<close>.
  \<^verbatim>\<open>ThreadPoolExecutor\<close> has no upper limit.
\<close>

datatype platform = Linux | Win32

definition process_pool_executor :: "platform \<Rightarrow> int \<Rightarrow> py_error option" where
  "process_pool_executor plat max_workers =
     (if max_workers \<le> 0 then Some ValueError
      else if plat = Win32 \<and> 61 < max_workers then Some ValueError
      else if 2 ^ 31 - 1 \<le> max_workers then Some OverflowError
      else None)"

definition process_pool_map_lambda :: "('a \<Rightarrow> 'b) \<Rightarrow> 'a list \<Rightarrow> py_error + 'b list" where
  "process_pool_map_lambda f items = (if items = [] then Inr [] else Inl PickleError)"

definition find_primes_multiprocessing ::
    "platform \<Rightarrow> real \<Rightarrow> real \<Rightarrow> int \<Rightarrow> int \<Rightarrow> int \<Rightarrow> py_error + (int list \<times> real)" where
  "find_primes_multiprocessing plat t0 t1 start stop num_processes =
     (case chunk_size_of start stop num_processes of
        Inl e \<Rightarrow> Inl e
      | Inr chunk_size \<Rightarrow>
          (let ranges = chunk_ranges start stop chunk_size
           in case process_pool_executor plat num_processes of
                Some e \<Rightarrow> Inl e
              | None \<Rightarrow>
                  (case process_pool_map_lambda
                          (\<lambda>r. find_primes_in_range (fst r) (snd r)) ranges of
                     Inl e \<Rightarrow> Inl e
                   | Inr results \<Rightarrow>
                       (let all_primes = foldl (@) [] results
                        in Inr (sort all_primes, t1 - t0)))))"

subsection \<open>The benchmark harness\<close>

record benchmark_record =
  primes_found :: nat
  execution_time :: real
  workers :: int
  speedup :: "real option"

record configuration =
  start_range :: int
  end_range :: int
  cpu_count :: "int option"

datatype entry = Bench benchmark_record | Config configuration | Primes "int list"

type_synonym results = "string \<rightharpoonup> entry"

text \<open>
  The six readings of the clock that one benchmark run makes, two per strategy. The
  harness hands the platform on to the process fan-out, which alone depends on it.
\<close>

record clock =
  seq_t0 :: real
  seq_t1 :: real
  thread_t0 :: real
  thread_t1 :: real
  multi_t0 :: real
  multi_t1 :: real

text \<open>Python's \<^verbatim>\<open>/\<close> on floats raises for a divisor of zero.\<close>

definition truediv :: "real \<Rightarrow> real \<Rightarrow> py_error + real" where
  "truediv a b = (if b = 0 then Inl ZeroDivisionError else Inr (a / b))"

definition benchmark_all_methods ::
    "platform \<Rightarrow> clock \<Rightarrow> nat list \<Rightarrow> int \<Rightarrow> int \<Rightarrow> int \<Rightarrow>
       py_error + (results \<times> int list)" where
  "benchmark_all_methods plat clk sched start stop num_workers =
     (case find_primes_sequential (seq_t0 clk) (seq_t1 clk) start stop of
        (primes, duration) \<Rightarrow>
     (let results1 = Map.empty(''sequential'' \<mapsto> Bench
            \<lparr>primes_found = length primes, execution_time = duration, workers = 1,
             speedup = None\<rparr>)
      in case find_primes_threading (thread_t0 clk) (thread_t1 clk) sched start stop num_workers of
           Inl e \<Rightarrow> Inl e
         | Inr (primes_thread, duration_thread) \<Rightarrow>
     (case truediv duration duration_thread of
        Inl e \<Rightarrow> Inl e
      | Inr speedup_thread \<Rightarrow>
     (let results2 = results1(''threading'' \<mapsto> Bench
            \<lparr>primes_found = length primes_thread, execution_time = duration_thread,
             workers = num_workers, speedup = Some speedup_thread\<rparr>)
      in case find_primes_multiprocessing plat (multi_t0 clk) (multi_t1 clk) start stop
                num_workers of
           Inl e \<Rightarrow> Inl e
         | Inr (primes_multi, duration_multi) \<Rightarrow>
     (case truediv duration duration_multi of
        Inl e \<Rightarrow> Inl e
      | Inr speedup_multi \<Rightarrow>
          Inr (results2(''multiprocessing'' \<mapsto> Bench
                 \<lparr>primes_found = length primes_multi, execution_time = duration_multi,
                  workers = num_workers, speedup = Some speedup_multi\<rparr>),
               primes))))))"

datatype strategy = Sequential | Threading | Multiprocessing | All_Methods

fun strategy_name :: "strategy \<Rightarrow> string" where
  "strategy_name Sequential = ''sequential''"
| "strategy_name Threading = ''threading''"
| "strategy_name Multiprocessing = ''multiprocessing''"
| "strategy_name All_Methods = ''all''"

text \<open>
  The parsed command line (the worker count an integer, as given), and the summary that
  \<^verbatim>\<open>main\<close> builds before it writes it out; \<open>os_cpu_count\<close> is what \<^verbatim>\<open>os.cpu_count()\<close>
  returns, \<open>None\<close> when the count is unknown.
\<close>

record args =
  arg_start :: int
  arg_end :: int
  arg_workers :: int
  arg_method :: strategy
  arg_save_primes :: bool

definition run_method ::
    "platform \<Rightarrow> args \<Rightarrow> clock \<Rightarrow> nat list \<Rightarrow> py_error + ((int list \<times> real) \<times> int)" where
  "run_method plat a clk sched =
     (if arg_method a = Sequential then
        Inr (find_primes_sequential (seq_t0 clk) (seq_t1 clk) (arg_start a) (arg_end a), 1)
      else if arg_method a = Threading then
        (case find_primes_threading (thread_t0 clk) (thread_t1 clk) sched
                (arg_start a) (arg_end a) (arg_workers a) of
           Inl e \<Rightarrow> Inl e
         | Inr r \<Rightarrow> Inr (r, arg_workers a))
      else
        (case find_primes_multiprocessing plat (multi_t0 clk) (multi_t1 clk)
                (arg_start a) (arg_end a) (arg_workers a) of
           Inl e \<Rightarrow> Inl e
         | Inr r \<Rightarrow> Inr (r, arg_workers a)))"

definition main_results ::
    "platform \<Rightarrow> args \<Rightarrow> int option \<Rightarrow> clock \<Rightarrow> nat list \<Rightarrow> py_error + results" where
  "main_results plat a os_cpu_count clk sched =
     (let config = Config \<lparr>start_range = arg_start a, end_range = arg_end a,
                           cpu_count = os_cpu_count\<rparr>
      in if arg_method a = All_Methods then
           (case benchmark_all_methods plat clk sched (arg_start a) (arg_end a)
                   (arg_workers a) of
              Inl e \<Rightarrow> Inl e
            | Inr (results, primes) \<Rightarrow>
                (let results' = results(''configuration'' \<mapsto> config)
                 in Inr (if arg_save_primes a then results'(''primes'' \<mapsto> Primes primes)
                         else results')))
         else
           (case run_method plat a clk sched of
              Inl e \<Rightarrow> Inl e
            | Inr ((primes, duration), num_workers) \<Rightarrow>
                (let results = Map.empty
                       (strategy_name (arg_method a) \<mapsto> Bench
                          \<lparr>primes_found = length primes, execution_time = duration,
                           workers = num_workers, speedup = None\<rparr>,
                        ''configuration'' \<mapsto> config)
                 in Inr (if arg_save_primes a then results(''primes'' \<mapsto> Primes primes)
                         else results))))"

text \<open>
  A value is echoed by the configuration when one of its three fields holds it.
\<close>

definition config_holds :: "configuration \<Rightarrow> int \<Rightarrow> bool" where
  "config_holds cfg v \<longleftrightarrow> start_range cfg = v \<or> end_range cfg = v \<or> cpu_count cfg = Some v"

section \<open>The oracle decides primality\<close>

lemma is_prime_while_total: "is_prime_while n i = Some (is_prime_loop n i)"
proof (induction n i rule: is_prime_loop.induct)
  case (1 n i)
  show ?case
    by (subst is_prime_while.simps, subst is_prime_loop.simps) (use 1 in auto)
qed

lemma is_prime_run_eq: "is_prime_run n = Some (is_prime n)"
  by (simp add: is_prime_run_def is_prime_def is_prime_while_total)

lemma is_prime_loop_char:
  "5 \<le> i \<Longrightarrow> is_prime_loop n i \<longleftrightarrow>
     (\<forall>j. i \<le> j \<and> (j - i) mod 6 = 0 \<and> j * j \<le> n \<longrightarrow> \<not> j dvd n \<and> \<not> (j + 2) dvd n)"
proof (induction n i rule: is_prime_loop.induct)
  case (1 n i)
  let ?P = "\<lambda>i. \<forall>j. i \<le> j \<and> (j - i) mod 6 = 0 \<and> j * j \<le> n \<longrightarrow> \<not> j dvd n \<and> \<not> (j + 2) dvd n"
  have i5: "5 \<le> i" by (rule "1.prems")
  show ?case
  proof (cases "i * i \<le> n")
    case False
    have "\<not> j * j \<le> n" if "i \<le> j" for j
    proof -
      have "0 \<le> i" using i5 by simp
      then have "i * i \<le> j * j" using that by (intro mult_mono) linarith+
      with False show ?thesis by linarith
    qed
    then have "?P i" by blast
    moreover have "is_prime_loop n i" using False by (subst is_prime_loop.simps) simp
    ultimately show ?thesis by blast
  next
    case True
    show ?thesis
    proof (cases "n mod i = 0 \<or> n mod (i + 2) = 0")
      case d: True
      then have dv: "i dvd n \<or> (i + 2) dvd n" by (auto simp: dvd_eq_mod_eq_0)
      have "\<not> ?P i"
      proof
        assume "?P i"
        then have "i \<le> i \<and> (i - i) mod 6 = 0 \<and> i * i \<le> n \<longrightarrow> \<not> i dvd n \<and> \<not> (i + 2) dvd n"
          by (rule spec)
        with True dv show False by simp
      qed
      moreover have "\<not> is_prime_loop n i" using True d by (subst is_prime_loop.simps) simp
      ultimately show ?thesis by blast
    next
      case nd: False
      then have here: "\<not> i dvd n" "\<not> (i + 2) dvd n" by (auto simp: dvd_eq_mod_eq_0)
      have "5 \<le> i + 6" using i5 by simp
      with "1.IH"[OF True nd] have IH: "is_prime_loop n (i + 6) \<longleftrightarrow> ?P (i + 6)" .
      have step: "?P i \<longleftrightarrow> ?P (i + 6)"
      proof
        assume p: "?P i"
        show "?P (i + 6)"
        proof (intro allI impI)
          fix j assume a: "i + 6 \<le> j \<and> (j - (i + 6)) mod 6 = 0 \<and> j * j \<le> n"
          then have "i + 6 \<le> j \<and> (j - (i + 6)) mod 6 = 0" by simp
          then have "i \<le> j \<and> (j - i) mod 6 = 0" by presburger
          with a have c: "i \<le> j \<and> (j - i) mod 6 = 0 \<and> j * j \<le> n" by simp
          from p have "i \<le> j \<and> (j - i) mod 6 = 0 \<and> j * j \<le> n
              \<longrightarrow> \<not> j dvd n \<and> \<not> (j + 2) dvd n" by (rule spec)
          then show "\<not> j dvd n \<and> \<not> (j + 2) dvd n" using c by (rule mp)
        qed
      next
        assume p: "?P (i + 6)"
        show "?P i"
        proof (intro allI impI)
          fix j assume a: "i \<le> j \<and> (j - i) mod 6 = 0 \<and> j * j \<le> n"
          show "\<not> j dvd n \<and> \<not> (j + 2) dvd n"
          proof (cases "j = i")
            case True with here show ?thesis by simp
          next
            case False
            with a have "i \<le> j \<and> (j - i) mod 6 = 0 \<and> j \<noteq> i" by simp
            then have "i + 6 \<le> j \<and> (j - (i + 6)) mod 6 = 0" by presburger
            with a have c: "i + 6 \<le> j \<and> (j - (i + 6)) mod 6 = 0 \<and> j * j \<le> n" by simp
            from p have "i + 6 \<le> j \<and> (j - (i + 6)) mod 6 = 0 \<and> j * j \<le> n
                \<longrightarrow> \<not> j dvd n \<and> \<not> (j + 2) dvd n" by (rule spec)
            then show ?thesis using c by (rule mp)
          qed
        qed
      qed
      have "is_prime_loop n i = is_prime_loop n (i + 6)"
        using True nd by (subst is_prime_loop.simps) simp
      also have "\<dots> = ?P (i + 6)" by (rule IH)
      also have "\<dots> = ?P i" by (rule step[symmetric])
      finally show ?thesis .
    qed
  qed
qed

lemma small_divisor:
  assumes "1 < d" "d < n" "d dvd (n::int)"
  obtains e where "1 < e" "e * e \<le> n" "e dvd n"
proof -
  from assms obtain k where k: "n = d * k" by (auto simp: dvd_def)
  have "0 < d * k" "0 < d" using k assms by auto
  then have kpos: "0 < k" by (rule zero_less_mult_pos)
  have k1: "1 < k"
  proof (rule ccontr)
    assume "\<not> 1 < k" with kpos have "k = 1" by simp
    with k assms show False by simp
  qed
  show ?thesis
  proof (cases "d \<le> k")
    case True
    then have "d * d \<le> d * k" using assms(1) by (intro mult_left_mono) auto
    with k assms that[of d] show ?thesis by simp
  next
    case False
    then have "k * k \<le> d * k" using kpos by (intro mult_right_mono) auto
    with k k1 that[of k] show ?thesis by simp
  qed
qed

lemma coprime6_candidate:
  assumes "1 < e" "e dvd n" "\<not> 2 dvd (n::int)" "\<not> 3 dvd n"
  shows "wheel_candidate e"
proof -
  have "\<not> 2 dvd e" "\<not> 3 dvd e" using assms dvd_trans by blast+
  then have "e mod 2 \<noteq> 0" "e mod 3 \<noteq> 0" by (auto simp: dvd_eq_mod_eq_0)
  with assms(1) show ?thesis unfolding wheel_candidate_def by presburger
qed

lemma wheel_clear_prime:
  assumes "3 < n" "\<not> 2 dvd n" "\<not> 3 dvd n" "wheel_clear n"
  shows "prime_int n"
  unfolding prime_int_def
proof (intro conjI allI impI)
  show "1 < n" using assms by simp
next
  fix d assume d: "0 < d \<and> d dvd n"
  show "d = 1 \<or> d = n"
  proof (rule ccontr)
    assume "\<not> (d = 1 \<or> d = n)"
    moreover have "d \<le> n" using d assms(1) by (intro zdvd_imp_le) auto
    ultimately have "1 < d" "d < n" using d by auto
    then obtain e where e: "1 < e" "e * e \<le> n" "e dvd n"
      using d small_divisor by blast
    then have "wheel_candidate e" using coprime6_candidate assms by blast
    with e assms(4) show False unfolding wheel_clear_def by blast
  qed
qed

lemma prime_no_proper_divisor:
  assumes "prime_int n" "1 < d" "d < n"
  shows "\<not> d dvd n"
proof
  assume "d dvd n"
  moreover have "0 < d" using assms(2) by simp
  ultimately have "d = 1 \<or> d = n" using assms(1) unfolding prime_int_def by blast
  with assms(2,3) show False by simp
qed

lemma square_bound: "5 \<le> (j::int) \<Longrightarrow> j * j \<le> n \<Longrightarrow> j + 2 < n"
proof -
  assume a: "5 \<le> j" "j * j \<le> n"
  then have "5 * j \<le> j * j" by (intro mult_right_mono) auto
  with a show ?thesis by linarith
qed

lemma prime_imp_loop:
  assumes "prime_int n"
  shows "is_prime_loop n 5"
proof -
  have "\<not> j dvd n \<and> \<not> (j + 2) dvd n" if "5 \<le> j" "j * j \<le> n" for j
    using that square_bound[OF that] prime_no_proper_divisor[OF assms, of j]
      prime_no_proper_divisor[OF assms, of "j + 2"] by auto
  then show ?thesis by (subst is_prime_loop_char) auto
qed

lemma loop_imp_wheel_clear:
  assumes "is_prime_loop n 5"
  shows "wheel_clear n"
  unfolding wheel_clear_def
proof (intro allI impI)
  fix c assume c: "wheel_candidate c \<and> c * c \<le> n"
  have P: "\<And>j. 5 \<le> j \<Longrightarrow> (j - 5) mod 6 = 0 \<Longrightarrow> j * j \<le> n \<Longrightarrow> \<not> j dvd n \<and> \<not> (j + 2) dvd n"
    using assms by (subst (asm) is_prime_loop_char) auto
  from c have "5 \<le> c \<and> (c mod 6 = 5 \<or> c mod 6 = 1)"
    unfolding wheel_candidate_def by simp
  then have "(5 \<le> c \<and> c mod 6 = 5) \<or> (7 \<le> c \<and> c mod 6 = 1)"
    by presburger
  then consider "5 \<le> c" "c mod 6 = 5" | "7 \<le> c" "c mod 6 = 1"
    by blast
  then show "\<not> c dvd n"
  proof cases
    case 1
    then have "(c - 5) mod 6 = 0" by presburger
    with P[of c] 1 c show ?thesis by blast
  next
    case 2
    then have m: "5 \<le> c - 2" "(c - 2 - 5) mod 6 = 0" by presburger+
    have "(c - 2) * (c - 2) \<le> c * c" using 2 by (intro mult_mono) auto
    with c have "(c - 2) * (c - 2) \<le> n" by linarith
    with P[of "c - 2"] m show ?thesis by simp
  qed
qed

lemma is_prime_iff_prime: "is_prime n \<longleftrightarrow> prime_int n"
proof (cases "n \<le> 1")
  case True
  then show ?thesis by (simp add: is_prime_def prime_int_def)
next
  case n1: False
  show ?thesis
  proof (cases "n \<le> 3")
    case True
    with n1 have "n = 2 \<or> n = 3" by auto
    moreover have "prime_int 2" unfolding prime_int_def
    proof (intro conjI allI impI)
      fix d :: int assume d: "0 < d \<and> d dvd 2"
      then have "d \<le> 2" by (intro zdvd_imp_le) auto
      with d show "d = 1 \<or> d = 2" by (cases "d = 1") auto
    qed simp
    moreover have "prime_int 3" unfolding prime_int_def
    proof (intro conjI allI impI)
      fix d :: int assume d: "0 < d \<and> d dvd 3"
      then have "d \<le> 3" by (intro zdvd_imp_le) auto
      with d have "d = 1 \<or> d = 2 \<or> d = 3" by auto
      with d show "d = 1 \<or> d = 3" by auto
    qed simp
    ultimately show ?thesis using True n1 by (auto simp: is_prime_def)
  next
    case n3: False
    show ?thesis
    proof (cases "n mod 2 = 0 \<or> n mod 3 = 0")
      case True
      then have "2 dvd n \<or> 3 dvd n" by (auto simp: dvd_eq_mod_eq_0)
      then have "\<not> prime_int n" using n3 prime_no_proper_divisor[of n 2] prime_no_proper_divisor[of n 3] by auto
      with True n1 n3 show ?thesis by (simp add: is_prime_def)
    next
      case False
      then have nd: "\<not> 2 dvd n" "\<not> 3 dvd n" by (auto simp: dvd_eq_mod_eq_0)
      have "is_prime n = is_prime_loop n 5" using False n1 n3 by (simp add: is_prime_def)
      moreover have "is_prime_loop n 5 \<Longrightarrow> prime_int n"
        using wheel_clear_prime[of n] nd n3 loop_imp_wheel_clear by auto
      ultimately show ?thesis using prime_imp_loop by blast
    qed
  qed
qed

lemma is_prime_wheel:
  assumes "3 < n" "\<not> 2 dvd n" "\<not> 3 dvd n"
  shows "is_prime n \<longleftrightarrow> wheel_clear n"
proof -
  have "n mod 2 \<noteq> 0" "n mod 3 \<noteq> 0" using assms by (auto simp: dvd_eq_mod_eq_0)
  with assms have "is_prime n = is_prime_loop n 5" by (simp add: is_prime_def)
  moreover have "wheel_clear n \<Longrightarrow> is_prime_loop n 5"
    using wheel_clear_prime[OF assms] prime_imp_loop by blast
  ultimately show ?thesis using loop_imp_wheel_clear by blast
qed

lemma is_prime_cascade:
  "(n \<le> 1 \<longrightarrow> \<not> is_prime n) \<and> (n = 2 \<or> n = 3 \<longrightarrow> is_prime n)
   \<and> (n \<noteq> 2 \<and> n \<noteq> 3 \<and> (2 dvd n \<or> 3 dvd n) \<longrightarrow> \<not> is_prime n)"
  by (auto simp: is_prime_def dvd_eq_mod_eq_0)

lemma is_prime_table:
  "map is_prime [1, 2, 3, 4, 5, 6, 7, 8, 9, 10, 11, 100, 101, 1000, 1009] =
     [False, True, True, False, True, False, True, False, False, False, True, False, True,
      False, True]"
  by code_simp

text \<open>
  C1. For every integer \<open>n\<close>, \<^verbatim>\<open>is_prime(n)\<close> is true exactly when \<open>n\<close> is prime. It is false
  for \<open>n \<le> 1\<close>, true for 2 and 3, false for every other multiple of 2 or 3, and for the
  remaining \<open>n\<close> it is true exactly when no candidate \<open>6k - 1\<close> or \<open>6k + 1\<close> whose square
  is at most \<open>n\<close> divides \<open>n\<close>. On 1, 2, 3, 4, 5, 6, 7, 8, 9, 10, 11, 100, 101, 1000 and
  1009 it gives the expected truth table.
\<close>

theorem is_prime_correct:
  "(is_prime n \<longleftrightarrow> prime_int n)
   \<and> (n \<le> 1 \<longrightarrow> \<not> is_prime n)
   \<and> (n = 2 \<or> n = 3 \<longrightarrow> is_prime n)
   \<and> (n \<noteq> 2 \<and> n \<noteq> 3 \<and> (2 dvd n \<or> 3 dvd n) \<longrightarrow> \<not> is_prime n)
   \<and> (3 < n \<and> \<not> 2 dvd n \<and> \<not> 3 dvd n \<longrightarrow> (is_prime n \<longleftrightarrow> wheel_clear n))
   \<and> map is_prime [1, 2, 3, 4, 5, 6, 7, 8, 9, 10, 11, 100, 101, 1000, 1009] =
       [False, True, True, False, True, False, True, False, False, False, True, False, True,
        False, True]"
  using is_prime_iff_prime[of n] is_prime_cascade[of n] is_prime_wheel[of n] is_prime_table
  by blast

theorem is_prime_correct_witness:
  "prime_int 7 \<and> wheel_clear 7 \<and> \<not> prime_int 1 \<and> prime_int 2 \<and> \<not> prime_int 9
   \<and> \<not> prime_int 35 \<and> \<not> wheel_clear 35"
proof -
  have "is_prime 7" "\<not> is_prime 1" "is_prime 2" "\<not> is_prime 9" "\<not> is_prime 35"
    by code_simp+
  then show ?thesis
    using is_prime_correct[of 7] is_prime_correct[of 1] is_prime_correct[of 2]
      is_prime_correct[of 9] is_prime_correct[of 35]
    by auto
qed

text \<open>
  C10. \<^verbatim>\<open>is_prime\<close> returns for every integer \<open>n\<close>: the run of the function with its loop
  has a result, the result of the total function. The loop starts at 5 and adds 6 to
  \<open>i\<close>, and whenever it goes round again (\<open>i * i \<le> n\<close>) the measure \<open>n - i * i\<close> is not
  negative and is strictly smaller for the next \<open>i\<close>.
\<close>

theorem is_prime_terminates:
  "(\<exists>b. is_prime_run n = Some b) \<and> is_prime_run n = Some (is_prime n)
   \<and> (\<forall>i. 5 \<le> i \<and> i * i \<le> n \<longrightarrow> 0 \<le> n - i * i \<and> n - (i + 6) * (i + 6) < n - i * i)"
proof -
  have "n - (i + 6) * (i + 6) < n - i * i" if "5 \<le> i" for i :: int
    using that by (simp add: algebra_simps)
  then show ?thesis by (simp add: is_prime_run_eq)
qed

theorem is_prime_terminates_witness:
  "is_prime_run 101 = Some True \<and> (5::int) * 5 \<le> 101
   \<and> (101::int) - (5 + 6) * (5 + 6) < 101 - 5 * 5 \<and> is_prime_run (-4) = Some False"
proof -
  have "is_prime 101" "\<not> is_prime (-4)" by code_simp+
  then show ?thesis
    using is_prime_terminates[of 101] is_prime_terminates[of "-4"] by simp
qed

section \<open>The primes of a range\<close>

lemma find_primes_in_range_sorted: "sorted_wrt (<) (find_primes_in_range start stop)"
  unfolding find_primes_in_range_def by (rule sorted_wrt_filter) simp

lemma find_primes_in_range_set:
  "set (find_primes_in_range start stop) = {x. start \<le> x \<and> x \<le> stop \<and> is_prime x}"
  unfolding find_primes_in_range_def by auto

lemma find_primes_in_range_empty: "stop < start \<Longrightarrow> find_primes_in_range start stop = []"
  unfolding find_primes_in_range_def by simp

lemma primes_1_100:
  "find_primes_in_range 1 100 =
     [2, 3, 5, 7, 11, 13, 17, 19, 23, 29, 31, 37, 41, 43, 47, 53, 59, 61, 67, 71, 73, 79,
      83, 89, 97]"
  by code_simp

lemma primes_1_1000_count: "length (find_primes_in_range 1 1000) = 168"
  by code_simp

text \<open>
  C2. For every \<open>start\<close> and \<open>stop\<close>, \<^verbatim>\<open>find_primes_in_range\<close> returns a strictly ascending
  list, every element of which passes \<^verbatim>\<open>is_prime\<close>, and which holds every integer of
  \<open>[start, stop]\<close> that passes \<^verbatim>\<open>is_prime\<close>. There are 25 primes in \<open>[1, 100]\<close>, the first five
  are 2, 3, 5, 7, 11 and the last three 83, 89, 97, and there are 168 primes in \<open>[1, 1000]\<close>.
\<close>

theorem find_primes_in_range_correct:
  "sorted_wrt (<) (find_primes_in_range start stop)
   \<and> (\<forall>x \<in> set (find_primes_in_range start stop). is_prime x)
   \<and> (\<forall>x. start \<le> x \<and> x \<le> stop \<and> is_prime x \<longrightarrow> x \<in> set (find_primes_in_range start stop))
   \<and> length (find_primes_in_range 1 100) = 25
   \<and> take 5 (find_primes_in_range 1 100) = [2, 3, 5, 7, 11]
   \<and> drop (length (find_primes_in_range 1 100) - 3) (find_primes_in_range 1 100) = [83, 89, 97]
   \<and> length (find_primes_in_range 1 1000) = 168"
proof -
  have "length (find_primes_in_range 1 100) = 25"
    "take 5 (find_primes_in_range 1 100) = [2, 3, 5, 7, 11]"
    "drop (length (find_primes_in_range 1 100) - 3) (find_primes_in_range 1 100) = [83, 89, 97]"
    unfolding primes_1_100 by simp_all
  then show ?thesis
    using find_primes_in_range_sorted[of start stop] primes_1_1000_count
    by (simp add: find_primes_in_range_set)
qed

theorem find_primes_in_range_correct_witness:
  "find_primes_in_range 10 20 = [11, 13, 17, 19] \<and> is_prime 13 \<and> 17 \<in> set (find_primes_in_range 10 20)"
proof -
  have l: "find_primes_in_range 10 20 = [11, 13, 17, 19]" by code_simp
  have "is_prime 17" by code_simp
  then show ?thesis using find_primes_in_range_correct[of 10 20] unfolding l by simp
qed

section \<open>The partitioning covers the range\<close>

lemma chunk_ranges_empty: "stop < i \<Longrightarrow> chunk_ranges i stop c = []"
  by (subst chunk_ranges.simps) simp

lemma chunk_ranges_cover:
  "0 < c \<Longrightarrow> concat (map (\<lambda>(a, b). [a..b]) (chunk_ranges i stop c)) = [i..stop]"
proof (induction i stop c rule: chunk_ranges.induct)
  case (1 i stop c)
  show ?case
  proof (cases "i \<le> stop")
    case False
    then show ?thesis by (subst chunk_ranges.simps) simp
  next
    case True
    have IH: "concat (map (\<lambda>(a, b). [a..b]) (chunk_ranges (i + c) stop c)) = [i + c..stop]"
      using "1.IH" True "1.prems" by simp
    have unf: "chunk_ranges i stop c =
        (i, min (i + c - 1) stop) # chunk_ranges (i + c) stop c"
      using True "1.prems" by (subst chunk_ranges.simps) simp
    show ?thesis
    proof (cases "i + c - 1 \<le> stop")
      case le: True
      have "[i..stop] = [i..i + c - 1] @ [i + c - 1 + 1..stop]"
        using le "1.prems" by (intro upto_split2) simp_all
      then show ?thesis using le by (simp add: unf IH min_def)
    next
      case gt: False
      then have "[i + c..stop] = []" by simp
      then show ?thesis using gt by (simp add: unf IH min_def)
    qed
  qed
qed

lemma chunk_ranges_nonempty:
  "0 < c \<Longrightarrow> r \<in> set (chunk_ranges i stop c) \<Longrightarrow> i \<le> fst r \<and> fst r \<le> snd r \<and> snd r \<le> stop"
proof (induction i stop c rule: chunk_ranges.induct)
  case (1 i stop c)
  show ?case
  proof (cases "i \<le> stop")
    case False
    with "1.prems" show ?thesis by (subst (asm) chunk_ranges.simps) simp
  next
    case True
    have unf: "chunk_ranges i stop c =
        (i, min (i + c - 1) stop) # chunk_ranges (i + c) stop c"
      using True "1.prems" by (subst chunk_ranges.simps) simp
    from "1.prems"(2) consider "r = (i, min (i + c - 1) stop)" | "r \<in> set (chunk_ranges (i + c) stop c)"
      unfolding unf by auto
    then show ?thesis
    proof cases
      case 1
      then show ?thesis using True "1.prems"(1) by auto
    next
      case 2
      then have "i + c \<le> fst r \<and> fst r \<le> snd r \<and> snd r \<le> stop"
        using "1.IH" True "1.prems"(1) by simp
      then show ?thesis using "1.prems"(1) by simp
    qed
  qed
qed

lemma chunk_ranges_contiguous: "0 < c \<Longrightarrow> contiguous (chunk_ranges i stop c)"
proof (induction i stop c rule: chunk_ranges.induct)
  case (1 i stop c)
  show ?case
  proof (cases "i \<le> stop")
    case False
    then show ?thesis by (subst chunk_ranges.simps) simp
  next
    case True
    have unf: "chunk_ranges i stop c =
        (i, min (i + c - 1) stop) # chunk_ranges (i + c) stop c"
      using True "1.prems" by (subst chunk_ranges.simps) simp
    have IH: "contiguous (chunk_ranges (i + c) stop c)"
      using "1.IH" True "1.prems" by simp
    show ?thesis
    proof (cases "i + c \<le> stop")
      case False
      then have "chunk_ranges (i + c) stop c = []" by (simp add: chunk_ranges_empty)
      then show ?thesis by (simp add: unf)
    next
      case le: True
      have "chunk_ranges (i + c) stop c =
          (i + c, min (i + c + c - 1) stop) # chunk_ranges (i + c + c) stop c"
        using le "1.prems" by (subst chunk_ranges.simps) simp
      then show ?thesis using IH le by (simp add: unf min_def)
    qed
  qed
qed

lemma chunk_ranges_starts: "0 < c \<Longrightarrow> sorted_wrt (<) (map fst (chunk_ranges i stop c))"
proof (induction i stop c rule: chunk_ranges.induct)
  case (1 i stop c)
  show ?case
  proof (cases "i \<le> stop")
    case False
    then show ?thesis by (subst chunk_ranges.simps) simp
  next
    case True
    have unf: "chunk_ranges i stop c =
        (i, min (i + c - 1) stop) # chunk_ranges (i + c) stop c"
      using True "1.prems" by (subst chunk_ranges.simps) simp
    have IH: "sorted_wrt (<) (map fst (chunk_ranges (i + c) stop c))"
      using "1.IH" True "1.prems" by simp
    have "i < fst r" if "r \<in> set (chunk_ranges (i + c) stop c)" for r
      using chunk_ranges_nonempty[OF "1.prems" that] "1.prems" by simp
    then show ?thesis using IH by (auto simp: unf)
  qed
qed

lemma chunk_ranges_nth:
  "0 < c \<Longrightarrow> k < length (chunk_ranges i stop c) \<Longrightarrow>
     chunk_ranges i stop c ! k = (i + int k * c, min (i + int k * c + c - 1) stop)"
proof (induction i stop c arbitrary: k rule: chunk_ranges.induct)
  case (1 i stop c)
  show ?case
  proof (cases "i \<le> stop")
    case False
    then have "chunk_ranges i stop c = []" by (simp add: chunk_ranges_empty)
    with "1.prems"(2) show ?thesis by simp
  next
    case True
    have unf: "chunk_ranges i stop c =
        (i, min (i + c - 1) stop) # chunk_ranges (i + c) stop c"
      using True "1.prems" by (subst chunk_ranges.simps) simp
    show ?thesis
    proof (cases k)
      case 0
      then show ?thesis by (simp add: unf)
    next
      case (Suc k')
      then have "k' < length (chunk_ranges (i + c) stop c)" using "1.prems"(2) unfolding unf by simp
      then have "chunk_ranges (i + c) stop c ! k' =
          (i + c + int k' * c, min (i + c + int k' * c + c - 1) stop)"
        using "1.IH" True "1.prems"(1) by simp
      then show ?thesis using Suc by (simp add: unf algebra_simps)
    qed
  qed
qed

lemma chunk_size_of_pos:
  "1 \<le> n \<Longrightarrow> chunk_size_of start stop n = Inr (max 1 ((stop - start + 1) div n))"
  by (simp add: chunk_size_of_def Let_def max_def)

text \<open>
  C4. For every \<open>start\<close>, \<open>stop\<close> and worker count \<open>n \<ge> 1\<close>, the partitioning uses the chunk
  size \<open>max 1 ((stop - start + 1) div n)\<close>; its \<open>k\<close>-th chunk starts at \<open>start\<close> plus \<open>k\<close>
  chunk sizes and ends at the minimum of its start plus the chunk size minus 1 and \<open>stop\<close>.
  The chunks are in ascending order, each starts right after the one before ends, none is
  empty, and laid end to end they are the integers from \<open>start\<close> to \<open>stop\<close>, each once.
  When \<open>stop < start\<close> there is no chunk.
\<close>

theorem partition_correct:
  assumes "1 \<le> n"
  shows "chunk_size_of start stop n = Inr (max 1 ((stop - start + 1) div n))
    \<and> chunks_for start stop n =
        Inr (chunk_ranges start stop (max 1 ((stop - start + 1) div n)))
    \<and> (\<forall>k < length (chunk_ranges start stop (max 1 ((stop - start + 1) div n))).
          chunk_ranges start stop (max 1 ((stop - start + 1) div n)) ! k =
            (start + int k * max 1 ((stop - start + 1) div n),
             min (start + int k * max 1 ((stop - start + 1) div n)
                    + max 1 ((stop - start + 1) div n) - 1) stop))
    \<and> sorted_wrt (<) (map fst (chunk_ranges start stop (max 1 ((stop - start + 1) div n))))
    \<and> contiguous (chunk_ranges start stop (max 1 ((stop - start + 1) div n)))
    \<and> (\<forall>r \<in> set (chunk_ranges start stop (max 1 ((stop - start + 1) div n))).
          start \<le> fst r \<and> fst r \<le> snd r \<and> snd r \<le> stop)
    \<and> concat (map (\<lambda>(a, b). [a..b])
          (chunk_ranges start stop (max 1 ((stop - start + 1) div n)))) = [start..stop]
    \<and> distinct (concat (map (\<lambda>(a, b). [a..b])
          (chunk_ranges start stop (max 1 ((stop - start + 1) div n)))))
    \<and> (stop < start \<longrightarrow> chunk_ranges start stop (max 1 ((stop - start + 1) div n)) = [])"
proof -
  define c where "c = max 1 ((stop - start + 1) div n)"
  have c: "0 < c" unfolding c_def by simp
  have s: "chunk_size_of start stop n = Inr c"
    unfolding c_def using assms by (rule chunk_size_of_pos)
  then have f: "chunks_for start stop n = Inr (chunk_ranges start stop c)"
    by (simp add: chunks_for_def)
  have cov: "concat (map (\<lambda>(a, b). [a..b]) (chunk_ranges start stop c)) = [start..stop]"
    using c by (rule chunk_ranges_cover)
  have "distinct (concat (map (\<lambda>(a, b). [a..b]) (chunk_ranges start stop c)))"
    unfolding cov by simp
  then show ?thesis
    using s f cov chunk_ranges_nth[OF c] chunk_ranges_starts[OF c] chunk_ranges_contiguous[OF c]
      chunk_ranges_nonempty[OF c] chunk_ranges_empty[of stop start c]
    unfolding c_def[symmetric] by blast
qed

theorem partition_correct_witness:
  "(1::int) \<le> 3 \<and> chunks_for 1 10 3 = Inr [(1, 3), (4, 6), (7, 9), (10, 10)]
   \<and> contiguous [(1, 3), (4, 6), (7, 9), (10, 10)]
   \<and> concat (map (\<lambda>(a, b). [a..b]) [(1, 3), (4, 6), (7, 9), (10, 10)]) = [1..10]
   \<and> (5::int) < 10 \<and> chunks_for 10 5 4 = Inr []"
proof -
  have e: "chunk_ranges 1 10 (max 1 ((10 - 1 + 1) div 3)) = [(1, 3), (4, 6), (7, 9), (10, 10)]"
    by code_simp
  have a: "(1::int) \<le> 3" and b: "(1::int) \<le> 4" by simp_all
  show ?thesis
    using partition_correct[OF a, of 1 10] partition_correct[OF b, of 10 5]
    unfolding e by simp
qed

section \<open>The strategies\<close>

lemma foldl_worker:
  "foldl worker acc rs = acc @ concat (map (\<lambda>r. find_primes_in_range (fst r) (snd r)) rs)"
  by (induction rs arbitrary: acc) (simp_all add: worker_def)

lemma scheduled_tasks_mset:
  assumes "valid_schedule sched (length tasks)"
  shows "mset (map (\<lambda>k. tasks ! k) sched) = mset tasks"
proof -
  have "mset sched = mset (sort sched)" by simp
  also have "\<dots> = mset [0..<length tasks]"
    using assms unfolding valid_schedule_def by (rule arg_cong)
  finally have "mset sched = mset [0..<length tasks]" .
  then have "image_mset (\<lambda>k. tasks ! k) (mset sched) =
      image_mset (\<lambda>k. tasks ! k) (mset [0..<length tasks])" by (rule arg_cong)
  then have "mset (map (\<lambda>k. tasks ! k) sched) = mset (map (\<lambda>k. tasks ! k) [0..<length tasks])"
    by (simp only: mset_map)
  then show ?thesis by (simp only: map_nth)
qed

lemma mset_concat_map_cong:
  "mset xs = mset ys \<Longrightarrow> mset (concat (map f xs)) = mset (concat (map f ys))"
proof -
  assume a: "mset xs = mset ys"
  have "mset (concat (map f zs)) = sum_mset (image_mset (\<lambda>z. mset (f z)) (mset zs))" for zs
    by (induction zs) simp_all
  then show ?thesis using a by simp
qed

lemma chunk_primes:
  "0 < c \<Longrightarrow>
   concat (map (\<lambda>r. find_primes_in_range (fst r) (snd r)) (chunk_ranges start stop c)) =
     find_primes_in_range start stop"
proof -
  assume c: "0 < c"
  have "(\<lambda>r. find_primes_in_range (fst r) (snd r)) = filter is_prime \<circ> (\<lambda>(a, b). [a..b])"
    by (auto simp: find_primes_in_range_def fun_eq_iff)
  then have "concat (map (\<lambda>r. find_primes_in_range (fst r) (snd r)) (chunk_ranges start stop c)) =
      filter is_prime (concat (map (\<lambda>(a, b). [a..b]) (chunk_ranges start stop c)))"
    by (simp add: filter_concat)
  then show ?thesis
    using chunk_ranges_cover[OF c] by (simp add: find_primes_in_range_def)
qed

lemma threading_eq_sequential:
  assumes n: "1 \<le> n"
    and sched: "valid_schedule sched
        (length (chunk_ranges start stop (max 1 ((stop - start + 1) div n))))"
  shows "find_primes_threading t0 t1 sched start stop n =
           Inr (find_primes_in_range start stop, t1 - t0)"
proof -
  define c where "c = max 1 ((stop - start + 1) div n)"
  define tasks where "tasks = chunk_ranges start stop c"
  define all_primes where "all_primes = foldl worker [] (map (\<lambda>k. tasks ! k) sched)"
  have c: "0 < c" unfolding c_def by simp
  have s: "chunk_size_of start stop n = Inr c"
    unfolding c_def using n by (rule chunk_size_of_pos)
  have "mset (map (\<lambda>k. tasks ! k) sched) = mset tasks"
    using sched unfolding tasks_def c_def by (rule scheduled_tasks_mset)
  then have "mset (concat (map (\<lambda>r. find_primes_in_range (fst r) (snd r))
        (map (\<lambda>k. tasks ! k) sched))) =
      mset (concat (map (\<lambda>r. find_primes_in_range (fst r) (snd r)) tasks))"
    by (rule mset_concat_map_cong)
  moreover have "all_primes = concat (map (\<lambda>r. find_primes_in_range (fst r) (snd r))
        (map (\<lambda>k. tasks ! k) sched))"
    unfolding all_primes_def foldl_worker by simp
  moreover have "concat (map (\<lambda>r. find_primes_in_range (fst r) (snd r)) tasks) =
      find_primes_in_range start stop"
    unfolding tasks_def using c by (rule chunk_primes)
  ultimately have m: "mset (find_primes_in_range start stop) = mset all_primes"
    by (simp only:)
  have "sorted (find_primes_in_range start stop)"
    using find_primes_in_range_sorted[of start stop] by (simp add: strict_sorted_iff)
  with m have "sort all_primes = find_primes_in_range start stop"
    by (rule properties_for_sort)
  moreover have "find_primes_threading t0 t1 sched start stop n = Inr (sort all_primes, t1 - t0)"
    using n by (simp add: find_primes_threading_def s all_primes_def tasks_def Let_def)
  ultimately show ?thesis by simp
qed

lemma chunk_ranges_not_empty: "0 < c \<Longrightarrow> start \<le> stop \<Longrightarrow> chunk_ranges start stop c \<noteq> []"
  by (subst chunk_ranges.simps) simp

lemma process_pool_executor_small:
  "1 \<le> n \<Longrightarrow> n \<le> 61 \<Longrightarrow> process_pool_executor plat n = None"
  by (simp add: process_pool_executor_def)

lemma multiprocessing_raises:
  assumes "1 \<le> n" "n \<le> 61" "start \<le> stop"
  shows "find_primes_multiprocessing plat t0 t1 start stop n = Inl PickleError"
proof -
  have "chunk_ranges start stop (max 1 ((stop - start + 1) div n)) \<noteq> []"
    using assms(3) by (intro chunk_ranges_not_empty) simp_all
  then show ?thesis
    using assms(1) process_pool_executor_small[OF assms(1,2), of plat]
    by (simp add: find_primes_multiprocessing_def chunk_size_of_pos process_pool_map_lambda_def
        Let_def)
qed

lemma multiprocessing_empty_range:
  assumes "stop < start"
  shows "find_primes_multiprocessing plat t0 t1 start stop n =
    (if n = 0 then Inl ZeroDivisionError
     else case process_pool_executor plat n of
            Some e \<Rightarrow> Inl e
          | None \<Rightarrow> Inr ([], t1 - t0))"
  using assms
  by (simp add: find_primes_multiprocessing_def chunk_size_of_def process_pool_map_lambda_def
      Let_def chunk_ranges_empty split: option.splits)

lemma multiprocessing_empty:
  assumes "1 \<le> n" "n \<le> 61" "stop < start"
  shows "find_primes_multiprocessing plat t0 t1 start stop n = Inr ([], t1 - t0)"
  using assms(1) process_pool_executor_small[OF assms(1,2), of plat]
  by (simp add: multiprocessing_empty_range[OF assms(3)])

lemma foldl_append_concat: "foldl (@) acc xss = acc @ concat xss"
  by (induction xss arbitrary: acc) simp_all

text \<open>
  What the process fan-out does with the results once it has them: flattened in dispatch
  order and sorted, the primes of the chunks are the primes of the range.
\<close>

lemma flattened_chunk_results:
  assumes "0 < c"
  shows "sort (foldl (@) []
      (map (\<lambda>r. find_primes_in_range (fst r) (snd r)) (chunk_ranges start stop c))) =
    find_primes_in_range start stop"
proof -
  have "sorted (find_primes_in_range start stop)"
    using find_primes_in_range_sorted[of start stop] by (simp add: strict_sorted_iff)
  then have "sort (find_primes_in_range start stop) = find_primes_in_range start stop"
    by (rule sorted_sort_id)
  then show ?thesis
    unfolding foldl_append_concat by (simp add: chunk_primes[OF assms])
qed

lemma valid_schedule_0: "valid_schedule sched 0 \<longleftrightarrow> sched = []"
proof -
  have "sort sched = [] \<longleftrightarrow> sched = []"
    by (metis length_sort length_0_conv)
  then show ?thesis by (simp add: valid_schedule_def)
qed

lemma threading_empty:
  assumes "1 \<le> n" "stop < start" "valid_schedule sched 0"
  shows "find_primes_threading t0 t1 sched start stop n = Inr ([], t1 - t0)"
proof -
  have "valid_schedule sched (length (chunk_ranges start stop (max 1 ((stop - start + 1) div n))))"
    using assms(2,3) by (simp add: chunk_ranges_empty)
  from threading_eq_sequential[OF assms(1) this]
  show ?thesis using assms(2) by (simp add: find_primes_in_range_empty)
qed

lemma threading_empty_range:
  assumes "stop < start" "valid_schedule sched 0"
  shows "find_primes_threading t0 t1 sched start stop n =
    (if n = 0 then Inl ZeroDivisionError
     else if n < 0 then Inl ValueError
     else Inr ([], t1 - t0))"
proof (cases "1 \<le> n")
  case True
  then show ?thesis using threading_empty[OF True assms] by simp
next
  case False
  then show ?thesis
    by (simp add: find_primes_threading_def chunk_size_of_def Let_def)
qed

text \<open>
  C5, as the claim states it, fails: on the empty range from 10 to 5 both fan-out
  strategies raise \<^verbatim>\<open>ZeroDivisionError\<close> with a worker count of 0 and \<^verbatim>\<open>ValueError\<close> with
  a negative one, and on Linux the process fan-out raises \<^verbatim>\<open>OverflowError\<close> with
  \<open>2^31 - 1\<close> workers.
\<close>

theorem empty_range_counterexample:
  "(5::int) < 10
   \<and> find_primes_threading 0 2 [] 10 5 0 = Inl ZeroDivisionError
   \<and> find_primes_multiprocessing Linux 0 2 10 5 0 = Inl ZeroDivisionError
   \<and> find_primes_threading 0 2 [] 10 5 (-1) = Inl ValueError
   \<and> find_primes_multiprocessing Linux 0 2 10 5 (-1) = Inl ValueError
   \<and> find_primes_multiprocessing Linux 0 2 10 5 2147483647 = Inl OverflowError"
proof -
  have e: "(5::int) < 10" by simp
  have v: "valid_schedule [] 0" by (simp add: valid_schedule_0)
  show ?thesis
    by (simp add: threading_empty_range[OF e v] multiprocessing_empty_range[OF e]
        process_pool_executor_def)
qed

text \<open>
  C5, amended. When \<open>stop < start\<close>, \<^verbatim>\<open>find_primes_in_range\<close> and the sequential strategy
  return the empty list and raise nothing. No task is submitted then, so the schedule of
  the threads is the empty one, and the thread fan-out returns the empty list for every
  worker count of at least 1, raises \<^verbatim>\<open>ZeroDivisionError\<close> for 0 and \<^verbatim>\<open>ValueError\<close> for a
  negative one. The process fan-out does the same up to the limit of its pool: it returns
  the empty list for every worker count from 1 to 61 on any platform, and on Linux up to
  \<open>2^31 - 2\<close>; beyond 61 on win32 it raises \<^verbatim>\<open>ValueError\<close>, and from \<open>2^31 - 1\<close> on Linux
  \<^verbatim>\<open>OverflowError\<close>. \<^verbatim>\<open>find_primes_in_range(0, 1)\<close> and \<^verbatim>\<open>find_primes_in_range(10, 5)\<close> are
  empty.
\<close>

theorem empty_range_results:
  assumes "stop < start" "valid_schedule sched 0"
  shows "find_primes_in_range start stop = []
    \<and> find_primes_sequential t0 t1 start stop = ([], t1 - t0)
    \<and> find_primes_threading t0 t1 sched start stop n =
        (if n = 0 then Inl ZeroDivisionError
         else if n < 0 then Inl ValueError
         else Inr ([], t1 - t0))
    \<and> find_primes_multiprocessing plat t0 t1 start stop n =
        (if n = 0 then Inl ZeroDivisionError
         else if n < 0 then Inl ValueError
         else if plat = Win32 \<and> 61 < n then Inl ValueError
         else if 2 ^ 31 - 1 \<le> n then Inl OverflowError
         else Inr ([], t1 - t0))
    \<and> (1 \<le> n \<and> n \<le> 61 \<longrightarrow>
          find_primes_multiprocessing plat t0 t1 start stop n = Inr ([], t1 - t0))
    \<and> find_primes_in_range 0 1 = [] \<and> find_primes_in_range 10 5 = []"
proof -
  have "find_primes_in_range 0 1 = []" "find_primes_in_range 10 5 = []" by code_simp+
  moreover have "find_primes_multiprocessing plat t0 t1 start stop n =
        (if n = 0 then Inl ZeroDivisionError
         else if n < 0 then Inl ValueError
         else if plat = Win32 \<and> 61 < n then Inl ValueError
         else if 2 ^ 31 - 1 \<le> n then Inl OverflowError
         else Inr ([], t1 - t0))"
    unfolding multiprocessing_empty_range[OF assms(1)]
    by (simp add: process_pool_executor_def)
  moreover have "find_primes_multiprocessing plat t0 t1 start stop n = Inr ([], t1 - t0)"
    if "1 \<le> n \<and> n \<le> 61"
    using that assms(1) by (simp add: multiprocessing_empty)
  ultimately show ?thesis
    using assms(1) threading_empty_range[OF assms, of t0 t1 n]
    by (simp add: find_primes_sequential_def find_primes_in_range_empty)
qed

theorem empty_range_results_witness:
  "(5::int) < 10 \<and> valid_schedule [] 0
   \<and> find_primes_in_range 10 5 = []
   \<and> find_primes_sequential 0 2 10 5 = ([], 2)
   \<and> find_primes_threading 0 2 [] 10 5 4 = Inr ([], 2)
   \<and> find_primes_multiprocessing Linux 0 2 10 5 4 = Inr ([], 2)
   \<and> find_primes_multiprocessing Win32 0 2 10 5 4 = Inr ([], 2)
   \<and> find_primes_multiprocessing Win32 0 2 10 5 62 = Inl ValueError
   \<and> find_primes_multiprocessing Linux 0 2 10 5 62 = Inr ([], 2)"
proof -
  have a: "(5::int) < 10" and c: "valid_schedule [] 0"
    by (simp_all add: valid_schedule_def)
  show ?thesis
    using a c empty_range_results[OF a c, of 0 2 4 Linux]
      empty_range_results[OF a c, of 0 2 4 Win32]
      empty_range_results[OF a c, of 0 2 62 Win32]
      empty_range_results[OF a c, of 0 2 62 Linux]
    by simp
qed

lemma threading_raises_zero:
  "find_primes_threading t0 t1 sched start stop 0 = Inl ZeroDivisionError"
  by (simp add: find_primes_threading_def chunk_size_of_def)

lemma multiprocessing_raises_zero:
  "find_primes_multiprocessing plat t0 t1 start stop 0 = Inl ZeroDivisionError"
  by (simp add: find_primes_multiprocessing_def chunk_size_of_def)

lemma threading_no_division_error:
  "n \<noteq> 0 \<Longrightarrow> find_primes_threading t0 t1 sched start stop n \<noteq> Inl ZeroDivisionError"
  by (simp add: find_primes_threading_def chunk_size_of_def Let_def)

lemma multiprocessing_no_division_error:
  "n \<noteq> 0 \<Longrightarrow> find_primes_multiprocessing plat t0 t1 start stop n \<noteq> Inl ZeroDivisionError"
  by (simp add: find_primes_multiprocessing_def chunk_size_of_def process_pool_map_lambda_def
      process_pool_executor_def Let_def split: option.splits)

text \<open>
  C6, as the claim states it, fails: with a worker count of 0 the division of the
  chunk-size computation raises before the clamp is reached, in both fan-out strategies.
\<close>

theorem zero_workers_counterexample:
  "chunk_size_of 1 10 0 = Inl ZeroDivisionError
   \<and> find_primes_threading 0 1 [] 1 10 0 = Inl ZeroDivisionError
   \<and> find_primes_multiprocessing Linux 0 1 1 10 0 = Inl ZeroDivisionError
   \<and> find_primes_multiprocessing Win32 0 1 1 10 0 = Inl ZeroDivisionError"
  by (simp add: threading_raises_zero multiprocessing_raises_zero chunk_size_of_def)

text \<open>
  C6, amended. The chunk-size computation divides by the worker count and then clamps:
  with a worker count of 0 it raises \<^verbatim>\<open>ZeroDivisionError\<close>, and so do both fan-out
  strategies; with any other worker count it raises nothing and the chunk size is
  \<open>max 1 ((stop - start + 1) div n)\<close>, at least 1, and neither strategy fails with a
  division error.
\<close>

theorem chunk_size_clamped:
  "(n = 0 \<longrightarrow> chunk_size_of start stop n = Inl ZeroDivisionError
        \<and> find_primes_threading t0 t1 sched start stop n = Inl ZeroDivisionError
        \<and> find_primes_multiprocessing plat t0 t1 start stop n = Inl ZeroDivisionError)
   \<and> (n \<noteq> 0 \<longrightarrow> chunk_size_of start stop n = Inr (max 1 ((stop - start + 1) div n))
        \<and> 1 \<le> max 1 ((stop - start + 1) div n)
        \<and> find_primes_threading t0 t1 sched start stop n \<noteq> Inl ZeroDivisionError
        \<and> find_primes_multiprocessing plat t0 t1 start stop n \<noteq> Inl ZeroDivisionError)"
proof -
  have "chunk_size_of start stop n = Inr (max 1 ((stop - start + 1) div n))" if "n \<noteq> 0"
    using that by (simp add: chunk_size_of_def Let_def max_def)
  then show ?thesis
    using threading_no_division_error[of n t0 t1 sched start stop]
      multiprocessing_no_division_error[of n plat t0 t1 start stop]
    by (auto simp: threading_raises_zero multiprocessing_raises_zero chunk_size_of_def)
qed

theorem chunk_size_clamped_witness:
  "chunk_size_of 1 10 0 = Inl ZeroDivisionError \<and> chunk_size_of 1 10 20 = Inr 1
   \<and> chunk_size_of 1 10 (-3) = Inr 1 \<and> chunk_size_of 1 100 4 = Inr 25
   \<and> find_primes_threading 0 1 [] 1 10 (-3) \<noteq> Inl ZeroDivisionError"
  using chunk_size_clamped[of 0 1 10 0 1 "[]" Linux] chunk_size_clamped[of 20 1 10 0 1 "[]" Linux]
    chunk_size_clamped[of "-3" 1 10 0 1 "[]" Linux] chunk_size_clamped[of 4 1 100 0 1 "[]" Linux]
  by simp

lemma chunks_1_1000_4:
  "chunk_ranges 1 1000 (max 1 ((1000 - 1 + 1) div 4)) =
     [(1, 250), (251, 500), (501, 750), (751, 1000)]"
  by code_simp

lemma chunks_1_100_4:
  "chunk_ranges 1 100 (max 1 ((100 - 1 + 1) div 4)) =
     [(1, 25), (26, 50), (51, 75), (76, 100)]"
  by code_simp

lemma chunks_1_100_1: "chunk_ranges 1 100 (max 1 ((100 - 1 + 1) div 1)) = [(1, 100)]"
  by code_simp

lemma chunks_1_10_2: "chunk_ranges 1 10 (max 1 ((10 - 1 + 1) div 2)) = [(1, 5), (6, 10)]"
  by code_simp

lemma schedule_4: "valid_schedule [0, 1, 2, 3] 4"
  unfolding valid_schedule_def by code_simp

lemma schedule_1: "valid_schedule [0] 1"
  unfolding valid_schedule_def by code_simp

lemma schedule_2: "valid_schedule [1, 0] 2"
  unfolding valid_schedule_def by code_simp

text \<open>
  C3, at the range \<open>[1, 1000]\<close> with 4 workers: the thread fan-out returns what the
  sequential strategy returns, and the process fan-out raises, so the three strategies do
  not return the same set of primes.
\<close>

theorem strategies_1_1000:
  "find_primes_multiprocessing plat t0 t1 1 1000 4 = Inl PickleError
   \<and> find_primes_threading t0 t1 [0, 1, 2, 3] 1 1000 4 = Inr (find_primes_sequential t0 t1 1 1000)"
proof -
  have "length (chunk_ranges 1 1000 (max 1 ((1000 - 1 + 1) div 4))) = 4"
    unfolding chunks_1_1000_4 by simp
  then have "valid_schedule [0, 1, 2, 3]
      (length (chunk_ranges 1 1000 (max 1 ((1000 - 1 + 1) div 4))))"
    using schedule_4 by (simp only:)
  then have "find_primes_threading t0 t1 [0, 1, 2, 3] 1 1000 4 =
      Inr (find_primes_in_range 1 1000, t1 - t0)"
    by (intro threading_eq_sequential) simp
  then show ?thesis
    by (simp add: multiprocessing_raises find_primes_sequential_def)
qed

text \<open>
  C9, at its own example: with 20 workers on \<open>[1, 10]\<close> the process fan-out raises instead
  of returning 2, 3, 5, 7, and with one worker on \<open>[1, 100]\<close> it raises too, while the
  thread fan-out with one worker returns what the sequential strategy returns.
\<close>

theorem more_workers_than_range:
  "find_primes_multiprocessing plat t0 t1 1 10 20 = Inl PickleError
   \<and> find_primes_multiprocessing plat t0 t1 1 100 1 = Inl PickleError
   \<and> find_primes_threading t0 t1 [0] 1 100 1 = Inr (find_primes_sequential t0 t1 1 100)"
proof -
  have "valid_schedule [0] (length (chunk_ranges 1 100 (max 1 ((100 - 1 + 1) div 1))))"
    unfolding chunks_1_100_1 using schedule_1 by simp
  then have "find_primes_threading t0 t1 [0] 1 100 1 = Inr (find_primes_in_range 1 100, t1 - t0)"
    by (intro threading_eq_sequential) simp
  then show ?thesis
    by (simp add: multiprocessing_raises find_primes_sequential_def)
qed

lemma benchmark_all_methods_records:
  assumes "benchmark_all_methods plat clk sched start stop n = Inr (r, ps)"
  shows "\<exists>pt pm. r =
      [''sequential'' \<mapsto> Bench \<lparr>primes_found = length ps,
          execution_time = seq_t1 clk - seq_t0 clk, workers = 1, speedup = None\<rparr>,
       ''threading'' \<mapsto> Bench \<lparr>primes_found = pt,
          execution_time = thread_t1 clk - thread_t0 clk, workers = n,
          speedup = Some ((seq_t1 clk - seq_t0 clk) / (thread_t1 clk - thread_t0 clk))\<rparr>,
       ''multiprocessing'' \<mapsto> Bench \<lparr>primes_found = pm,
          execution_time = multi_t1 clk - multi_t0 clk, workers = n,
          speedup = Some ((seq_t1 clk - seq_t0 clk) / (multi_t1 clk - multi_t0 clk))\<rparr>]"
proof -
  obtain pt dt where t: "find_primes_threading (thread_t0 clk) (thread_t1 clk) sched start stop n
      = Inr (pt, dt)"
    using assms
    by (auto simp: benchmark_all_methods_def find_primes_sequential_def Let_def
        split: sum.splits prod.splits)
  obtain pm dm where m: "find_primes_multiprocessing plat (multi_t0 clk) (multi_t1 clk) start stop n
      = Inr (pm, dm)"
    using assms t
    by (auto simp: benchmark_all_methods_def find_primes_sequential_def Let_def
        split: sum.splits prod.splits)
  have dt: "dt = thread_t1 clk - thread_t0 clk"
    using t by (auto simp: find_primes_threading_def Let_def split: sum.splits if_splits)
  have dm: "dm = multi_t1 clk - multi_t0 clk"
    using m
    by (auto simp: find_primes_multiprocessing_def Let_def
        split: sum.splits option.splits if_splits)
  show ?thesis
    using assms t m dt dm
    by (auto simp: benchmark_all_methods_def find_primes_sequential_def Let_def truediv_def
        split: sum.splits prod.splits if_splits)
qed

text \<open>
  C7, on the range \<open>[1, 100]\<close> with 4 workers: the sequential and the thread strategies
  run, then the process fan-out raises, and the benchmark returns no record at all.
\<close>

theorem benchmark_1_100:
  "benchmark_all_methods plat
     \<lparr>seq_t0 = 0, seq_t1 = 4, thread_t0 = 4, thread_t1 = 6, multi_t0 = 6, multi_t1 = 7\<rparr>
     [0, 1, 2, 3] 1 100 4 = Inl PickleError"
proof -
  have "length (chunk_ranges 1 100 (max 1 ((100 - 1 + 1) div 4))) = 4"
    unfolding chunks_1_100_4 by simp
  then have "valid_schedule [0, 1, 2, 3]
      (length (chunk_ranges 1 100 (max 1 ((100 - 1 + 1) div 4))))"
    using schedule_4 by (simp only:)
  then have "find_primes_threading 4 6 [0, 1, 2, 3] 1 100 4 =
      Inr (find_primes_in_range 1 100, 6 - 4)"
    by (intro threading_eq_sequential) simp
  then show ?thesis
    by (simp add: benchmark_all_methods_def find_primes_sequential_def truediv_def
        multiprocessing_raises Let_def)
qed

section \<open>The summary of the harness\<close>

lemma primes_1_10: "find_primes_in_range 1 10 = [2, 3, 5, 7]"
  by code_simp

lemma run_method_workers:
  assumes "run_method plat a clk sched = Inr (pd, w)"
  shows "w = (if arg_method a = Sequential then 1 else arg_workers a)"
  using assms by (auto simp: run_method_def split: if_splits sum.splits)

lemma main_results_single:
  assumes "arg_method a \<noteq> All_Methods" "main_results plat a cpu clk sched = Inr r"
  shows "r ''configuration'' = Some (Config \<lparr>start_range = arg_start a,
            end_range = arg_end a, cpu_count = cpu\<rparr>)
    \<and> (\<exists>b. r (strategy_name (arg_method a)) = Some (Bench b)
          \<and> workers b = (if arg_method a = Sequential then 1 else arg_workers a))
    \<and> dom r \<subseteq> {strategy_name (arg_method a), ''configuration'', ''primes''}"
proof -
  obtain ps d w where rm: "run_method plat a clk sched = Inr ((ps, d), w)"
    using assms by (auto simp: main_results_def Let_def split: sum.splits prod.splits)
  have w: "w = (if arg_method a = Sequential then 1 else arg_workers a)"
    using rm by (rule run_method_workers)
  have n: "strategy_name (arg_method a) \<noteq> ''configuration''"
    "strategy_name (arg_method a) \<noteq> ''primes''"
    by (cases "arg_method a"; simp)+
  show ?thesis
    using assms rm w n
    by (auto simp: main_results_def Let_def split: if_splits)
qed

lemma main_results_all:
  assumes "arg_method a = All_Methods" "main_results plat a cpu clk sched = Inr r"
  shows "r ''configuration'' = Some (Config \<lparr>start_range = arg_start a,
            end_range = arg_end a, cpu_count = cpu\<rparr>)
    \<and> (\<exists>s t m. r ''sequential'' = Some (Bench s) \<and> r ''threading'' = Some (Bench t)
          \<and> r ''multiprocessing'' = Some (Bench m)
          \<and> workers s = 1 \<and> workers t = arg_workers a \<and> workers m = arg_workers a)
    \<and> dom r \<subseteq> {''sequential'', ''threading'', ''multiprocessing'', ''configuration'',
          ''primes''}"
proof -
  obtain r0 ps where b: "benchmark_all_methods plat clk sched (arg_start a) (arg_end a)
      (arg_workers a) = Inr (r0, ps)"
    using assms by (auto simp: main_results_def Let_def split: sum.splits prod.splits)
  from benchmark_all_methods_records[OF b] obtain pt pm where r0: "r0 =
      [''sequential'' \<mapsto> Bench \<lparr>primes_found = length ps,
          execution_time = seq_t1 clk - seq_t0 clk, workers = 1, speedup = None\<rparr>,
       ''threading'' \<mapsto> Bench \<lparr>primes_found = pt,
          execution_time = thread_t1 clk - thread_t0 clk, workers = arg_workers a,
          speedup = Some ((seq_t1 clk - seq_t0 clk) / (thread_t1 clk - thread_t0 clk))\<rparr>,
       ''multiprocessing'' \<mapsto> Bench \<lparr>primes_found = pm,
          execution_time = multi_t1 clk - multi_t0 clk, workers = arg_workers a,
          speedup = Some ((seq_t1 clk - seq_t0 clk) / (multi_t1 clk - multi_t0 clk))\<rparr>]"
    by blast
  have "r = (if arg_save_primes a
      then r0(''configuration'' \<mapsto> Config \<lparr>start_range = arg_start a,
            end_range = arg_end a, cpu_count = cpu\<rparr>, ''primes'' \<mapsto> Primes ps)
      else r0(''configuration'' \<mapsto> Config \<lparr>start_range = arg_start a,
            end_range = arg_end a, cpu_count = cpu\<rparr>))"
    using assms b by (simp add: main_results_def Let_def)
  then show ?thesis unfolding r0 by (cases "arg_save_primes a") auto
qed

text \<open>
  C8, as the claim states it, fails: a thread fan-out run over \<open>[1, 10]\<close> with 2 workers
  on a machine with 8 processors. The summary has the key \<open>threading\<close> and the
  configuration echo, which holds the bounds 1 and 10 and the processor count 8; the
  worker count 2 is not in it.
\<close>

theorem configuration_echo_counterexample:
  "main_results Linux
     \<lparr>arg_start = 1, arg_end = 10, arg_workers = 2, arg_method = Threading,
      arg_save_primes = False\<rparr> (Some 8)
     \<lparr>seq_t0 = 0, seq_t1 = 1, thread_t0 = 1, thread_t1 = 3, multi_t0 = 3, multi_t1 = 4\<rparr>
     [1, 0] =
   Inr [''threading'' \<mapsto> Bench \<lparr>primes_found = 4, execution_time = 2, workers = 2,
          speedup = None\<rparr>,
        ''configuration'' \<mapsto> Config \<lparr>start_range = 1, end_range = 10, cpu_count = Some 8\<rparr>]
   \<and> \<not> config_holds \<lparr>start_range = 1, end_range = 10, cpu_count = Some 8\<rparr> 2"
proof -
  have "length (chunk_ranges 1 10 (max 1 ((10 - 1 + 1) div 2))) = 2"
    unfolding chunks_1_10_2 by simp
  then have "valid_schedule [1, 0] (length (chunk_ranges 1 10 (max 1 ((10 - 1 + 1) div 2))))"
    using schedule_2 by (simp only:)
  then have "find_primes_threading 1 3 [1, 0] 1 10 2 = Inr (find_primes_in_range 1 10, 3 - 1)"
    by (intro threading_eq_sequential) simp
  then show ?thesis
    by (simp add: main_results_def run_method_def primes_1_10 config_holds_def Let_def
        eval_nat_numeral)
qed

text \<open>
  C8, amended. Whenever \<^verbatim>\<open>main\<close> gets as far as its summary, the summary is keyed by
  strategy name (the chosen strategy, or all three), each strategy's record carries the
  worker count used (1 for the sequential strategy), and the configuration echo holds the
  range bounds and the processor count of the machine, \<^verbatim>\<open>os.cpu_count()\<close>, not the worker
  count. The only other keys are \<open>configuration\<close> and \<open>primes\<close>.
\<close>

theorem configuration_echo:
  assumes "main_results plat a cpu clk sched = Inr r"
  shows "(\<exists>cfg. r ''configuration'' = Some (Config cfg)
            \<and> cfg = \<lparr>start_range = arg_start a, end_range = arg_end a, cpu_count = cpu\<rparr>
            \<and> config_holds cfg (arg_start a) \<and> config_holds cfg (arg_end a))
    \<and> (arg_method a \<noteq> All_Methods \<longrightarrow>
          (\<exists>b. r (strategy_name (arg_method a)) = Some (Bench b)
             \<and> workers b = (if arg_method a = Sequential then 1 else arg_workers a))
          \<and> dom r \<subseteq> {strategy_name (arg_method a), ''configuration'', ''primes''})
    \<and> (arg_method a = All_Methods \<longrightarrow>
          (\<exists>s t m. r ''sequential'' = Some (Bench s) \<and> r ''threading'' = Some (Bench t)
             \<and> r ''multiprocessing'' = Some (Bench m)
             \<and> workers s = 1 \<and> workers t = arg_workers a \<and> workers m = arg_workers a)
          \<and> dom r \<subseteq> {''sequential'', ''threading'', ''multiprocessing'', ''configuration'',
                ''primes''})"
proof (cases "arg_method a = All_Methods")
  case True
  from main_results_all[OF True assms] True show ?thesis
    by (simp add: config_holds_def)
next
  case False
  from main_results_single[OF False assms] False show ?thesis
    by (simp add: config_holds_def)
qed

theorem configuration_echo_witness:
  "main_results Linux
     \<lparr>arg_start = 1, arg_end = 10, arg_workers = 3, arg_method = Sequential,
      arg_save_primes = True\<rparr> (Some 8)
     \<lparr>seq_t0 = 0, seq_t1 = 1, thread_t0 = 1, thread_t1 = 3, multi_t0 = 3, multi_t1 = 4\<rparr>
     [] =
   Inr [''sequential'' \<mapsto> Bench \<lparr>primes_found = 4, execution_time = 1, workers = 1,
          speedup = None\<rparr>,
        ''configuration'' \<mapsto> Config \<lparr>start_range = 1, end_range = 10, cpu_count = Some 8\<rparr>,
        ''primes'' \<mapsto> Primes [2, 3, 5, 7]]
   \<and> config_holds \<lparr>start_range = 1, end_range = 10, cpu_count = Some 8\<rparr> 10
   \<and> main_results Win32
     \<lparr>arg_start = 10, arg_end = 5, arg_workers = 4, arg_method = All_Methods,
      arg_save_primes = False\<rparr> None
     \<lparr>seq_t0 = 0, seq_t1 = 1, thread_t0 = 1, thread_t1 = 3, multi_t0 = 3, multi_t1 = 7\<rparr>
     [] =
   Inr [''sequential'' \<mapsto> Bench \<lparr>primes_found = 0, execution_time = 1, workers = 1,
          speedup = None\<rparr>,
        ''threading'' \<mapsto> Bench \<lparr>primes_found = 0, execution_time = 2, workers = 4,
          speedup = Some (1 / 2)\<rparr>,
        ''multiprocessing'' \<mapsto> Bench \<lparr>primes_found = 0, execution_time = 4, workers = 4,
          speedup = Some (1 / 4)\<rparr>,
        ''configuration'' \<mapsto> Config \<lparr>start_range = 10, end_range = 5, cpu_count = None\<rparr>]
   \<and> config_holds \<lparr>start_range = 10, end_range = 5, cpu_count = None\<rparr> 5"
proof -
  have e1: "main_results Linux
     \<lparr>arg_start = 1, arg_end = 10, arg_workers = 3, arg_method = Sequential,
      arg_save_primes = True\<rparr> (Some 8)
     \<lparr>seq_t0 = 0, seq_t1 = 1, thread_t0 = 1, thread_t1 = 3, multi_t0 = 3, multi_t1 = 4\<rparr>
     [] =
   Inr [''sequential'' \<mapsto> Bench \<lparr>primes_found = 4, execution_time = 1, workers = 1,
          speedup = None\<rparr>,
        ''configuration'' \<mapsto> Config \<lparr>start_range = 1, end_range = 10, cpu_count = Some 8\<rparr>,
        ''primes'' \<mapsto> Primes [2, 3, 5, 7]]"
    by (simp add: main_results_def run_method_def find_primes_sequential_def primes_1_10
        Let_def eval_nat_numeral)
  have v: "valid_schedule [] 0" by (simp add: valid_schedule_0)
  have t: "find_primes_threading 1 3 [] 10 5 4 = Inr ([], 3 - 1)"
    by (rule threading_empty[OF _ _ v]) simp_all
  have m: "find_primes_multiprocessing Win32 3 7 10 5 4 = Inr ([], 7 - 3)"
    by (rule multiprocessing_empty) simp_all
  have e2: "main_results Win32
     \<lparr>arg_start = 10, arg_end = 5, arg_workers = 4, arg_method = All_Methods,
      arg_save_primes = False\<rparr> None
     \<lparr>seq_t0 = 0, seq_t1 = 1, thread_t0 = 1, thread_t1 = 3, multi_t0 = 3, multi_t1 = 7\<rparr>
     [] =
   Inr [''sequential'' \<mapsto> Bench \<lparr>primes_found = 0, execution_time = 1, workers = 1,
          speedup = None\<rparr>,
        ''threading'' \<mapsto> Bench \<lparr>primes_found = 0, execution_time = 2, workers = 4,
          speedup = Some (1 / 2)\<rparr>,
        ''multiprocessing'' \<mapsto> Bench \<lparr>primes_found = 0, execution_time = 4, workers = 4,
          speedup = Some (1 / 4)\<rparr>,
        ''configuration'' \<mapsto> Config \<lparr>start_range = 10, end_range = 5, cpu_count = None\<rparr>]"
    using t m
    by (simp add: main_results_def benchmark_all_methods_def find_primes_sequential_def
        find_primes_in_range_empty truediv_def Let_def)
  show ?thesis
    using e1 e2 configuration_echo[OF e1] configuration_echo[OF e2] by simp
qed

end
